theory Spec2Isabelle
  imports Complex_Main "HOL-Library.Sublist"
begin

section \<open>Representation codes and the type table\<close>

text \<open>
  The members of \<^verbatim>\<open>core.lis_reprc\<close> that \<^verbatim>\<open>curves.py\<close> names: the nine keys of
  \<^verbatim>\<open>nptype\<close> and \<^verbatim>\<open>lis::mask\<close>, which the docstring of \<^verbatim>\<open>curves\<close> lists as not
  implemented. The field \<^verbatim>\<open>spec.reprc\<close> is read through \<^verbatim>\<open>core.lis_reprc(spec.reprc)\<close>
  everywhere, so a channel carries its code as a member of the enumeration; the byte
  values of the members live in the extension module and are never looked at here.
\<close>

datatype lis_reprc = f16 | f32 | f32low | f32fix | i8 | i16 | i32 | byte | string | mask

text \<open>
  The exceptions of \<^verbatim>\<open>curves.py\<close>, one constructor for each thing that can be raised:
  \<^item> \<open>UnsupportedDepthMode\<close>: \<^verbatim>\<open>NotImplementedError("lis.curves: depth recording mode == 1")\<close>;
  \<^item> \<open>FastChannelsPresent\<close>: \<^verbatim>\<open>NotImplementedError("Fast channel not implemented")\<close>;
  \<^item> \<open>InvalidLayout\<close>: either \<^verbatim>\<open>ValueError\<close> raised by \<^verbatim>\<open>spec_dtype\<close>;
  \<^item> \<open>DuplicateFieldName\<close>: the \<^verbatim>\<open>ValueError\<close> of \<^verbatim>\<open>np.dtype\<close> for a field name that
    occurs more than once;
  \<^item> \<open>UnsupportedCode\<close>: the \<^verbatim>\<open>KeyError\<close> of a lookup in \<^verbatim>\<open>nptype\<close>;
  \<^item> \<open>ZeroDivisionError\<close>: Python's, for a true division by zero;
  \<^item> \<open>InvalidShape\<close>: the \<^verbatim>\<open>ValueError\<close> of \<^verbatim>\<open>np.dtype((t, n))\<close> for a negative \<open>n\<close>;
  \<^item> \<open>CoreError\<close>: whatever a function of the extension module \<^verbatim>\<open>core\<close> raises,
    carried by its message.
\<close>

datatype error =
    UnsupportedDepthMode
  | FastChannelsPresent
  | InvalidLayout
  | DuplicateFieldName
  | UnsupportedCode
  | ZeroDivisionError
  | InvalidShape
  | CoreError string

text \<open>The dictionary \<^verbatim>\<open>nptype\<close>: representation code to numpy type string.\<close>

definition nptype :: "lis_reprc \<rightharpoonup> string" where
  "nptype = [
     f16    \<mapsto> ''f4'',
     f32    \<mapsto> ''f4'',
     f32low \<mapsto> ''f4'',
     f32fix \<mapsto> ''f4'',
     i8     \<mapsto> ''i1'',
     i16    \<mapsto> ''i2'',
     i32    \<mapsto> ''i4'',
     byte   \<mapsto> ''u1'',
     string \<mapsto> ''O'']"

text \<open>\<^verbatim>\<open>nptype[code]\<close>: a key that is not in the dictionary raises.\<close>

definition nptype_getitem :: "lis_reprc \<Rightarrow> error + string" where
  "nptype_getitem code = (case nptype code of None \<Rightarrow> Inl UnsupportedCode | Some t \<Rightarrow> Inr t)"

section \<open>Channel specifications and numpy dtypes\<close>

text \<open>
  A specification block of the DFSR, with the four fields \<^verbatim>\<open>curves.py\<close> reads. The
  sizes are Python integers.
\<close>

record spec =
  mnemonic :: string
  reprc :: lis_reprc
  reserved_size :: int
  samples :: int

text \<open>
  The dtype of one field: \<^verbatim>\<open>np.dtype(t)\<close> is a scalar of type string \<open>t\<close>,
  \<^verbatim>\<open>np.dtype((t, n))\<close> a sub-array of \<open>n\<close> elements of type \<open>t\<close>.
\<close>

datatype dtype = Scalar string | SubArray string int

fun element_count :: "dtype \<Rightarrow> int" where
  "element_count (Scalar t) = 1"
| "element_count (SubArray t n) = n"

fun element_type :: "dtype \<Rightarrow> string" where
  "element_type (Scalar t) = t"
| "element_type (SubArray t n) = t"

text \<open>\<^verbatim>\<open>np.dtype((t, n))\<close>: numpy refuses a negative dimension with a \<^verbatim>\<open>ValueError\<close>.\<close>

definition np_dtype_sub :: "string \<Rightarrow> int \<Rightarrow> error + dtype" where
  "np_dtype_sub t n = (if n < 0 then Inl InvalidShape else Inr (SubArray t n))"

text \<open>\<^verbatim>\<open>int(x)\<close> of a Python float: truncation towards zero.\<close>

definition py_int :: "rat \<Rightarrow> int" where
  "py_int x = (if 0 \<le> x then \<lfloor>x\<rfloor> else \<lceil>x\<rceil>)"

section \<open>The translator: \<^verbatim>\<open>spec_dtype\<close>\<close>

text \<open>
  \<^verbatim>\<open>spec_dtype(spec)\<close>. The sizing primitive \<^verbatim>\<open>core.lis_sizeof_type\<close> belongs to the
  extension module and is a parameter here.

  Python's \<^verbatim>\<open>/\<close> on integers is the correctly rounded float of the exact quotient,
  and \<^verbatim>\<open>x % 1\<close> is the fractional part of \<open>x\<close>. The sizes come from the 16-bit and
  8-bit fields of a specification block; on such operands the float quotient is an
  integer exactly when the exact quotient is, and is then exact. The quotients are
  therefore rationals here and \<^verbatim>\<open>x % 1\<close> is \<^const>\<open>frac\<close>. A zero divisor raises
  \<^verbatim>\<open>ZeroDivisionError\<close>; the first division cannot, being behind \<^verbatim>\<open>samples < 1\<close>.
\<close>

definition spec_dtype :: "(lis_reprc \<Rightarrow> int) \<Rightarrow> spec \<Rightarrow> error + dtype" where
  "spec_dtype lis_sizeof_type spec =
    (if samples spec < 1 then Inl InvalidLayout
     else
       let sample_size = (of_int (reserved_size spec) / of_int (samples spec) :: rat) in
       if frac sample_size \<noteq> 0 then Inl InvalidLayout
       else if reprc spec = string then
         (case nptype_getitem (reprc spec) of
            Inl e \<Rightarrow> Inl e
          | Inr t \<Rightarrow> Inr (Scalar t))
       else
         let reprsize = lis_sizeof_type (reprc spec) in
         if reprsize = 0 then Inl ZeroDivisionError
         else
           let entries = sample_size / of_int reprsize in
           if frac entries \<noteq> 0 then Inl InvalidLayout
           else
             (case nptype_getitem (reprc spec) of
                Inl e \<Rightarrow> Inl e
              | Inr t \<Rightarrow>
                  if entries = 1 then Inr (Scalar t)
                  else np_dtype_sub t (py_int entries)))"

section \<open>The resolver: \<^verbatim>\<open>mkunique\<close>\<close>

text \<open>\<^verbatim>\<open>str(n)\<close> of a natural number: its decimal digits.\<close>

definition digit :: "nat \<Rightarrow> char" where
  "digit d = char_of (48 + d)"

fun str_of_nat :: "nat \<Rightarrow> string" where
  "str_of_nat n = (if n < 10 then [digit n] else str_of_nat (n div 10) @ [digit (n mod 10)])"

declare str_of_nat.simps [simp del]

text \<open>\<^verbatim>\<open>tail.format(tailcount)\<close> with \<^verbatim>\<open>tail = '({})'\<close>.\<close>

definition tail_format :: "nat \<Rightarrow> string" where
  "tail_format tailcount = ''('' @ str_of_nat tailcount @ '')''"

text \<open>
  \<^verbatim>\<open>Counter(labels)\<close>: a dictionary from label to number of occurrences, which keeps
  its keys in the order of their first insertion. An association list in that order.
\<close>

fun counter_add :: "'a \<Rightarrow> ('a \<times> nat) list \<Rightarrow> ('a \<times> nat) list" where
  "counter_add x [] = [(x, 1)]"
| "counter_add x ((k, c) # kcs) =
     (if k = x then (k, c + 1) # kcs else (k, c) # counter_add x kcs)"

definition Counter :: "'a list \<Rightarrow> ('a \<times> nat) list" where
  "Counter labels = foldl (\<lambda>c x. counter_add x c) [] labels"

text \<open>\<^verbatim>\<open>[x for x, count in Counter(labels).items() if count > 1]\<close>\<close>

definition duplicates :: "'a list \<Rightarrow> 'a list" where
  "duplicates labels = map fst (filter (\<lambda>(x, count). count > 1) (Counter labels))"

text \<open>
  The inner loop of \<^verbatim>\<open>mkunique\<close> for one duplicated label: \<^verbatim>\<open>tmp\<close> is the list of
  the pairs seen so far, a pair whose name is the label gets the tail of the running
  \<^verbatim>\<open>tailcount\<close>.
\<close>

fun append_tails :: "string \<Rightarrow> nat \<Rightarrow> (string \<times> 'd) list \<Rightarrow> (string \<times> 'd) list" where
  "append_tails duplicate tailcount [] = []"
| "append_tails duplicate tailcount ((name, dt) # types) =
     (if name = duplicate
      then (name @ tail_format tailcount, dt) # append_tails duplicate (tailcount + 1) types
      else (name, dt) # append_tails duplicate tailcount types)"

text \<open>
  \<^verbatim>\<open>mkunique(types)\<close>: the outer loop runs over the duplicated labels of the list it
  was given, each pass rewriting the list the pass before it left.
\<close>

definition mkunique :: "(string \<times> 'd) list \<Rightarrow> (string \<times> 'd) list" where
  "mkunique types =
     fold (\<lambda>duplicate types. append_tails duplicate 0 types)
       (duplicates (map fst types)) types"

text \<open>
  The resolver as the specification words it (section 4.4), to compare \<^const>\<open>mkunique\<close>
  with: one pass over the list in which every occurrence of a name that is to be
  renamed gets the number of occurrences of that name before it, in the bracketed tail.
  \<open>seen\<close> holds the names passed so far. In \<open>resolver_spec\<close> the names to rename are
  those that occur more than once in the list.
\<close>

fun number_occurrences ::
  "(string \<Rightarrow> bool) \<Rightarrow> string list \<Rightarrow> (string \<times> 'd) list \<Rightarrow> (string \<times> 'd) list" where
  "number_occurrences rename seen [] = []"
| "number_occurrences rename seen ((name, dt) # types) =
     (if rename name then (name @ tail_format (count_list seen name), dt) else (name, dt))
       # number_occurrences rename (name # seen) types"

definition resolver_spec :: "(string \<times> 'd) list \<Rightarrow> (string \<times> 'd) list" where
  "resolver_spec types =
     number_occurrences (\<lambda>name. count_list (map fst types) name > 1) [] types"

section \<open>The builder: \<^verbatim>\<open>dfsr_dtype\<close>\<close>

text \<open>
  \<^verbatim>\<open>np.dtype(types)\<close> for a list of pairs of a name and a dtype: a structured dtype,
  here the list of its fields. numpy gives a field whose name is the empty string the
  default name \<^verbatim>\<open>f<i>\<close>, \<open>i\<close> the position of the field, and raises \<^verbatim>\<open>ValueError\<close>
  when a name occurs more than once.
\<close>

type_synonym layout = "(string \<times> dtype) list"

fun np_field_names :: "nat \<Rightarrow> string list \<Rightarrow> string list" where
  "np_field_names i [] = []"
| "np_field_names i (name # names) =
     (if name = [] then ''f'' @ str_of_nat i else name) # np_field_names (i + 1) names"

definition np_dtype :: "(string \<times> dtype) list \<Rightarrow> error + layout" where
  "np_dtype types =
     (let names = np_field_names 0 (map fst types) in
      if distinct names then Inr (zip names (map snd types))
      else Inl DuplicateFieldName)"

text \<open>
  \<^verbatim>\<open>dtype.itemsize\<close>: the bytes of one element of each type string of \<^verbatim>\<open>nptype\<close>
  (an object is a pointer, 8 bytes), of a sub-array, and of a structured dtype, which
  is packed. No other type string reaches it.
\<close>

definition typestr_itemsize :: "string \<Rightarrow> int" where
  "typestr_itemsize t =
     (if t = ''f4'' then 4 else if t = ''i1'' then 1 else if t = ''i2'' then 2
      else if t = ''i4'' then 4 else if t = ''u1'' then 1 else if t = ''O'' then 8
      else 0)"

fun dtype_itemsize :: "dtype \<Rightarrow> int" where
  "dtype_itemsize (Scalar t) = typestr_itemsize t"
| "dtype_itemsize (SubArray t n) = n * typestr_itemsize t"

definition itemsize :: "layout \<Rightarrow> int" where
  "itemsize fs = sum_list (map (\<lambda>(name, dt). dtype_itemsize dt) fs)"

text \<open>
  The data format specification record: its entry blocks, its specification blocks,
  and \<^verbatim>\<open>dfsr.info\<close>, which is only handed on. The value of an entry block is a
  Python integer, float or string.
\<close>

datatype entry_value = IntValue int | FloatValue rat | StrValue string

record entry =
  entry_type :: int
  entry_value :: entry_value

record 'info dfsr =
  entries :: "entry list"
  specs :: "spec list"
  info :: 'info

text \<open>
  The list comprehension of \<^verbatim>\<open>dfsr_dtype\<close>: the channels with
  \<^verbatim>\<open>reserved_size > 0 and samples == 1\<close>, in order, each with its dtype; the first
  \<^verbatim>\<open>spec_dtype\<close> that raises ends it.
\<close>

fun types_of :: "(lis_reprc \<Rightarrow> int) \<Rightarrow> spec list \<Rightarrow> error + (string \<times> dtype) list" where
  "types_of lis_sizeof_type [] = Inr []"
| "types_of lis_sizeof_type (ch # chs) =
     (if reserved_size ch > 0 \<and> samples ch = 1 then
        (case spec_dtype lis_sizeof_type ch of
           Inl e \<Rightarrow> Inl e
         | Inr dt \<Rightarrow>
             (case types_of lis_sizeof_type chs of
                Inl e \<Rightarrow> Inl e
              | Inr types \<Rightarrow> Inr ((mnemonic ch, dt) # types)))
      else types_of lis_sizeof_type chs)"

text \<open>
  \<^verbatim>\<open>dfsr_dtype(dfsr, strict)\<close>. The \<^verbatim>\<open>try\<close> holds the first \<^verbatim>\<open>np.dtype(types)\<close>
  alone: a \<^verbatim>\<open>ValueError\<close> of the comprehension is not caught, and neither is one of
  the second \<^verbatim>\<open>np.dtype\<close>, which is raised inside the handler. The handler's
  \<^verbatim>\<open>logging.error\<close> writes a log line and changes nothing else.
\<close>

definition dfsr_dtype :: "(lis_reprc \<Rightarrow> int) \<Rightarrow> 'info dfsr \<Rightarrow> bool \<Rightarrow> error + layout" where
  "dfsr_dtype lis_sizeof_type dfsr strict =
     (case types_of lis_sizeof_type (specs dfsr) of
        Inl e \<Rightarrow> Inl e
      | Inr types \<Rightarrow>
          (case np_dtype types of
             Inr dtype \<Rightarrow> Inr dtype
           | Inl exc \<Rightarrow>
               if strict then Inl exc
               else np_dtype (mkunique types)))"

section \<open>The orchestrator: \<^verbatim>\<open>curves\<close>\<close>

text \<open>
  The functions of the extension module that \<^verbatim>\<open>curves\<close> and \<^verbatim>\<open>spec_dtype\<close> call.
  \<^verbatim>\<open>dfs_formatstring\<close> and \<^verbatim>\<open>read_data_records\<close> can raise; they return the message
  then. The allocator \<^verbatim>\<open>alloc\<close> handed to \<^verbatim>\<open>read_data_records\<close> is a closure over
  the dtype and nothing else, so the dtype stands for it.
\<close>

record ('info, 'io, 'ix, 'r) core =
  lis_sizeof_type :: "lis_reprc \<Rightarrow> int"
  dfs_formatstring :: "'info dfsr \<Rightarrow> string + string"
  read_data_records :: "string \<Rightarrow> 'io \<Rightarrow> 'ix \<Rightarrow> 'info \<Rightarrow> int \<Rightarrow> layout \<Rightarrow> string + 'r"

record ('io, 'ix) logical_file =
  io :: 'io
  index :: 'ix

text \<open>The calls into the extension module, in the order they are made.\<close>

datatype ('info, 'io, 'ix) call =
    Dfs_formatstring "'info dfsr"
  | Read_data_records string 'io 'ix 'info int layout

text \<open>\<^verbatim>\<open>x.value == 1\<close>: an integer or a float that is one; a string never is.\<close>

fun equals_one :: "entry_value \<Rightarrow> bool" where
  "equals_one (IntValue n) = (n = 1)"
| "equals_one (FloatValue x) = (x = 1)"
| "equals_one (StrValue s) = False"

text \<open>
  \<^verbatim>\<open>curves(f, dfsr, strict, skip_fast)\<close>: the result, and the calls into the extension
  module made on the way. \<^verbatim>\<open>any(x for x in xs if p(x))\<close> is true when some element
  satisfies \<open>p\<close>, the elements being objects, which are truthy.
\<close>

definition curves ::
  "('info, 'io, 'ix, 'r) core \<Rightarrow> ('io, 'ix) logical_file \<Rightarrow> 'info dfsr \<Rightarrow> bool \<Rightarrow> bool
     \<Rightarrow> (error + 'r) \<times> ('info, 'io, 'ix) call list" where
  "curves core f dfsr strict skip_fast =
     (if list_ex (\<lambda>x. entry_type x = 13 \<and> equals_one (entry_value x)) (entries dfsr)
      then (Inl UnsupportedDepthMode, [])
      else if list_ex (\<lambda>x. samples x > 1) (specs dfsr) \<and> \<not> skip_fast
      then (Inl FastChannelsPresent, [])
      else
        (case dfs_formatstring core dfsr of
           Inl msg \<Rightarrow> (Inl (CoreError msg), [Dfs_formatstring dfsr])
         | Inr fmt \<Rightarrow>
             (case dfsr_dtype (lis_sizeof_type core) dfsr strict of
                Inl e \<Rightarrow> (Inl e, [Dfs_formatstring dfsr])
              | Inr dtype \<Rightarrow>
                  ((case read_data_records core fmt (io f) (index f) (info dfsr)
                          (itemsize dtype) dtype of
                      Inl msg \<Rightarrow> Inl (CoreError msg)
                    | Inr records \<Rightarrow> Inr records),
                   [Dfs_formatstring dfsr,
                    Read_data_records fmt (io f) (index f) (info dfsr)
                      (itemsize dtype) dtype]))))"

section \<open>Notions the properties are stated with\<close>

text \<open>
  A list of names is free of tail clashes when none of its names is a name that
  \<^const>\<open>mkunique\<close> writes: a name \<open>d\<close> that occurs \<open>c > 1\<close> times in the list, followed by
  the tail of a number below \<open>c\<close>.
\<close>

definition tail_clash_free :: "string list \<Rightarrow> bool" where
  "tail_clash_free names =
     list_all (\<lambda>n. list_all (\<lambda>d. count_list names d \<le> 1 \<or>
        list_all (\<lambda>k. n \<noteq> d @ tail_format k) [0..<count_list names d]) names) names"

text \<open>
  The channels the comprehension of \<^verbatim>\<open>dfsr_dtype\<close> keeps, in their order in the
  DFSR.
\<close>

definition kept_specs :: "'info dfsr \<Rightarrow> spec list" where
  "kept_specs dfsr = [ch \<leftarrow> specs dfsr. reserved_size ch > 0 \<and> samples ch = 1]"

text \<open>A call of the decode engine, \<^verbatim>\<open>core.read_data_records\<close>.\<close>

fun is_read_call :: "('info, 'io, 'ix) call \<Rightarrow> bool" where
  "is_read_call (Read_data_records fmt stream idx header width dtype) = True"
| "is_read_call (Dfs_formatstring d) = False"

text \<open>
  Modelled from the spec: the sizing primitive \<^verbatim>\<open>core.lis_sizeof_type\<close> of the
  extension module, for the concrete inputs below. Section 3 of the specification
  names the widths of the codes (16-bit float, 32-bit floats and fixed point, 8-, 16-
  and 32-bit integers, the byte), as the comments of \<^verbatim>\<open>nptype\<close> do. A string has no
  fixed width and \<open>mask\<close> is outside the supported set: 0 stands for both. The
  properties are stated for every sizing function.
\<close>

fun byte_width_of :: "lis_reprc \<Rightarrow> int" where
  "byte_width_of f16 = 2"
| "byte_width_of f32 = 4"
| "byte_width_of f32low = 4"
| "byte_width_of f32fix = 4"
| "byte_width_of i8 = 1"
| "byte_width_of i16 = 2"
| "byte_width_of i32 = 4"
| "byte_width_of byte = 1"
| "byte_width_of string = 0"
| "byte_width_of mask = 0"

section \<open>Concrete inputs\<close>

text \<open>
  An extension module for the concrete inputs: the sizing function above, a format
  string builder that returns \<^verbatim>\<open>"fmt"\<close>, and a decode engine that returns the
  frame width it was given.
\<close>

definition core0 :: "(unit, unit, unit, int) core" where
  "core0 = \<lparr>lis_sizeof_type = byte_width_of,
            dfs_formatstring = (\<lambda>dfsr. Inr ''fmt''),
            read_data_records = (\<lambda>fmt stream idx header width dtype. Inr width)\<rparr>"

definition file0 :: "(unit, unit) logical_file" where
  "file0 = \<lparr>io = (), index = ()\<rparr>"

definition depth_mode_1 :: entry where
  "depth_mode_1 = \<lparr>entry_type = 13, entry_value = IntValue 1\<rparr>"

definition ch_TIME_i16 :: spec where
  "ch_TIME_i16 = \<lparr>mnemonic = ''TIME'', reprc = i16, reserved_size = 2, samples = 1\<rparr>"

definition ch_TIME_i32 :: spec where
  "ch_TIME_i32 = \<lparr>mnemonic = ''TIME'', reprc = i32, reserved_size = 4, samples = 1\<rparr>"

definition ch_TIME_odd :: spec where
  "ch_TIME_odd = \<lparr>mnemonic = ''TIME'', reprc = i32, reserved_size = 3, samples = 1\<rparr>"

definition ch_DEPT :: spec where
  "ch_DEPT = \<lparr>mnemonic = ''DEPT'', reprc = f32, reserved_size = 4, samples = 1\<rparr>"

definition ch_GR :: spec where
  "ch_GR = \<lparr>mnemonic = ''GR'', reprc = i16, reserved_size = 8, samples = 1\<rparr>"

definition ch_TEXT :: spec where
  "ch_TEXT = \<lparr>mnemonic = ''TEXT'', reprc = string, reserved_size = 7, samples = 1\<rparr>"

definition ch_MASK :: spec where
  "ch_MASK = \<lparr>mnemonic = ''FLAG'', reprc = mask, reserved_size = 4, samples = 1\<rparr>"

definition ch_FAST :: spec where
  "ch_FAST = \<lparr>mnemonic = ''FAST'', reprc = i16, reserved_size = 8, samples = 4\<rparr>"

definition ch_FAST_odd :: spec where
  "ch_FAST_odd = \<lparr>mnemonic = ''FAST'', reprc = i16, reserved_size = 7, samples = 4\<rparr>"

definition ch_VOID :: spec where
  "ch_VOID = \<lparr>mnemonic = ''VOID'', reprc = f32, reserved_size = 0, samples = 1\<rparr>"

definition ch_blank :: spec where
  "ch_blank = \<lparr>mnemonic = [], reprc = f32, reserved_size = 4, samples = 1\<rparr>"

definition ch_A :: spec where
  "ch_A = \<lparr>mnemonic = ''A'', reprc = f32, reserved_size = 4, samples = 1\<rparr>"

definition ch_A0 :: spec where
  "ch_A0 = \<lparr>mnemonic = ''A(0)'', reprc = f32, reserved_size = 4, samples = 1\<rparr>"

definition dfsr_of :: "entry list \<Rightarrow> spec list \<Rightarrow> unit dfsr" where
  "dfsr_of es chs = \<lparr>entries = es, specs = chs, info = ()\<rparr>"

section \<open>Properties of the translator\<close>

lemmas ch_defs = ch_TIME_i16_def ch_TIME_i32_def ch_TIME_odd_def ch_DEPT_def ch_GR_def
  ch_TEXT_def ch_MASK_def ch_FAST_def ch_FAST_odd_def ch_VOID_def ch_blank_def ch_A_def ch_A0_def

lemma quot_Ints_iff: "b \<noteq> 0 \<Longrightarrow> (of_int a / of_int b :: rat) \<in> \<int> \<longleftrightarrow> b dvd a"
proof
  assume b: "b \<noteq> 0" and "(of_int a / of_int b :: rat) \<in> \<int>"
  then obtain k where "(of_int a / of_int b :: rat) = of_int k" by (auto elim: Ints_cases)
  with b have "(of_int a :: rat) = of_int (k * b)" by (simp add: field_simps)
  then have "a = k * b" by (simp only: of_int_eq_iff)
  then show "b dvd a" by simp
next
  assume b: "b \<noteq> 0" and "b dvd a"
  then obtain k where "a = b * k" by (auto elim: dvdE)
  with b have "(of_int a / of_int b :: rat) = of_int k" by simp
  then show "(of_int a / of_int b :: rat) \<in> \<int>" by simp
qed

lemma quot_of_dvd: "b \<noteq> 0 \<Longrightarrow> b dvd a \<Longrightarrow> (of_int a / of_int b :: rat) = of_int (a div b)"
  by auto

lemma py_int_of_int: "py_int (of_int k) = k"
  by (simp add: py_int_def)

lemma nptype_dom: "nptype c = None \<longleftrightarrow> c = mask"
  by (cases c) (simp_all add: nptype_def)

text \<open>
  Claim C2. A channel with \<^verbatim>\<open>samples == 1\<close>, a positive reserved size and a code that
  is not the string code, that \<^verbatim>\<open>nptype\<close> knows (type string \<open>t\<close>) and whose element
  width is \<open>w > 0\<close>, the reserved size being a multiple of \<open>w\<close>: \<^verbatim>\<open>spec_dtype\<close> returns a
  dtype of element type \<open>t\<close> with \<open>reserved_size / w\<close> elements; the count is 1 exactly
  when the reserved size is \<open>w\<close>, the dtype is then the scalar and otherwise the
  sub-array.
\<close>

theorem spec_dtype_entries:
  assumes "samples spec = 1" and "0 < reserved_size spec"
    and "reprc spec \<noteq> string" and "nptype (reprc spec) = Some t"
    and "sz (reprc spec) = w" and "0 < w"
    and "w dvd reserved_size spec"
  shows "\<exists>d. spec_dtype sz spec = Inr d
           \<and> element_type d = t
           \<and> element_count d = reserved_size spec div w
           \<and> (element_count d = 1 \<longleftrightarrow> reserved_size spec = w)
           \<and> (d = Scalar t \<longleftrightarrow> reserved_size spec = w)
           \<and> (d = SubArray t (reserved_size spec div w) \<longleftrightarrow> reserved_size spec \<noteq> w)"
proof -
  let ?n = "reserved_size spec div w"
  from assms have w0: "w \<noteq> 0" by simp
  have q: "(of_int (reserved_size spec) / of_int w :: rat) = of_int ?n"
    using w0 assms(7) by (rule quot_of_dvd)
  have one: "?n = 1 \<longleftrightarrow> reserved_size spec = w"
    using assms(2,6,7) by auto
  have pos: "0 \<le> ?n"
    using assms(2,6) by (simp add: pos_imp_zdiv_nonneg_iff)
  have "spec_dtype sz spec =
          Inr (if ?n = 1 then Scalar t else SubArray t ?n)"
    using assms(1,3,4,5) w0 pos
    by (simp add: spec_dtype_def Let_def q nptype_getitem_def np_dtype_sub_def py_int_of_int)
  then show ?thesis using one by auto
qed

theorem spec_dtype_entries_witness:
  "spec_dtype byte_width_of ch_GR = Inr (SubArray ''i2'' 4)
   \<and> element_count (SubArray ''i2'' 4) = reserved_size ch_GR div 2"
  using spec_dtype_entries [of ch_GR "''i2''" byte_width_of 2]
  by (auto simp: ch_GR_def nptype_def)

text \<open>
  Claim C3. A channel with \<^verbatim>\<open>samples == 1\<close>, a positive reserved size and a code that
  is not the string code, of element width \<open>w\<close> (not zero), whose reserved size is not a
  multiple of \<open>w\<close>: \<^verbatim>\<open>spec_dtype\<close> raises the \<^verbatim>\<open>ValueError\<close> of an invalid layout.
\<close>

theorem spec_dtype_not_multiple:
  assumes "samples spec = 1" and "0 < reserved_size spec"
    and "reprc spec \<noteq> string"
    and "sz (reprc spec) = w" and "0 < w"
    and "reserved_size spec mod w \<noteq> 0"
  shows "spec_dtype sz spec = Inl InvalidLayout"
proof -
  from assms have w0: "w \<noteq> 0" by simp
  have "\<not> w dvd reserved_size spec" using assms(6) by (simp add: dvd_eq_mod_eq_0)
  then have "(of_int (reserved_size spec) / of_int w :: rat) \<notin> \<int>"
    using w0 by (simp add: quot_Ints_iff)
  then show ?thesis
    using assms(1,3,4) w0 by (simp add: spec_dtype_def Let_def)
qed

theorem spec_dtype_not_multiple_witness:
  "reserved_size ch_TIME_odd mod 4 \<noteq> 0
   \<and> spec_dtype byte_width_of ch_TIME_odd = Inl InvalidLayout"
  using spec_dtype_not_multiple [of ch_TIME_odd byte_width_of 4]
  by (simp add: ch_TIME_odd_def)

text \<open>
  Claim C4. A channel with \<^verbatim>\<open>samples == 1\<close>, a positive reserved size and the string
  code: \<^verbatim>\<open>spec_dtype\<close> returns the scalar object dtype, one element, whatever the
  reserved size and whatever the sizing function says: no width is looked at.
\<close>

theorem spec_dtype_string:
  assumes "samples spec = 1" and "0 < reserved_size spec" and "reprc spec = string"
  shows "spec_dtype sz spec = Inr (Scalar ''O'')
         \<and> element_count (Scalar ''O'') = 1"
  using assms by (simp add: spec_dtype_def Let_def nptype_getitem_def nptype_def)

theorem spec_dtype_string_witness:
  "spec_dtype byte_width_of ch_TEXT = Inr (Scalar ''O'')"
  using spec_dtype_string [of ch_TEXT byte_width_of]
  by (simp add: ch_TEXT_def)

text \<open>
  Claim C7. A representation code that is not a key of \<^verbatim>\<open>nptype\<close>: the lookup raises
  the \<^verbatim>\<open>KeyError\<close>, and \<^verbatim>\<open>spec_dtype\<close> raises on every channel that carries the code,
  for every sizing function: the layout error, the division by zero or the
  \<^verbatim>\<open>KeyError\<close>; it returns no dtype.
\<close>

theorem unsupported_code_fails:
  assumes "nptype code = None"
  shows "nptype_getitem code = Inl UnsupportedCode
         \<and> (\<forall>sz spec. reprc spec = code \<longrightarrow>
              spec_dtype sz spec
                \<in> {Inl InvalidLayout, Inl ZeroDivisionError, Inl UnsupportedCode})"
proof -
  from assms have m: "code = mask" by (simp add: nptype_dom)
  have g: "nptype_getitem code = Inl UnsupportedCode"
    using assms by (simp add: nptype_getitem_def)
  moreover have "spec_dtype sz spec
                \<in> {Inl InvalidLayout, Inl ZeroDivisionError, Inl UnsupportedCode}"
    if "reprc spec = code" for sz spec
    using that g m by (simp add: spec_dtype_def Let_def)
  ultimately show ?thesis by blast
qed

theorem unsupported_code_fails_witness:
  "nptype mask = None
   \<and> nptype_getitem mask = Inl UnsupportedCode
   \<and> spec_dtype byte_width_of ch_MASK
        \<in> {Inl InvalidLayout, Inl ZeroDivisionError, Inl UnsupportedCode}"
proof -
  have h: "nptype mask = None" by (simp add: nptype_def)
  have "reprc ch_MASK = mask" by (simp add: ch_MASK_def)
  with unsupported_code_fails [OF h] h show ?thesis by blast
qed

section \<open>Decimal strings and tails\<close>

lemma digit_not_paren: "d < 10 \<Longrightarrow> digit d \<noteq> CHR ''(''"
proof
  assume d: "d < 10" and "digit d = CHR ''(''"
  then have "of_char (char_of (48 + d)) = (of_char (CHR ''('') :: nat)"
    by (simp add: digit_def)
  with d show False by simp
qed

lemma digit_inj: "a < 10 \<Longrightarrow> b < 10 \<Longrightarrow> digit a = digit b \<Longrightarrow> a = b"
proof -
  assume a: "a < 10" and b: "b < 10" and "digit a = digit b"
  then have "(of_char (char_of (48 + a)) :: nat) = of_char (char_of (48 + b))"
    by (simp add: digit_def)
  with a b show "a = b" by simp
qed

lemma str_of_nat_no_paren: "CHR ''('' \<notin> set (str_of_nat n)"
proof (induction n rule: str_of_nat.induct)
  case (1 n)
  show ?case
  proof (cases "n < 10")
    case True
    then show ?thesis
      using digit_not_paren [of n] by (subst str_of_nat.simps) auto
  next
    case False
    then show ?thesis
      using "1" digit_not_paren [of "n mod 10"] by (subst str_of_nat.simps) auto
  qed
qed

lemma str_of_nat_nonempty: "str_of_nat n \<noteq> []"
  by (subst str_of_nat.simps) simp

lemma str_of_nat_inj: "str_of_nat a = str_of_nat b \<Longrightarrow> a = b"
proof (induction a arbitrary: b rule: str_of_nat.induct)
  case (1 a)
  show ?case
  proof (cases "a < 10")
    case a: True
    show ?thesis
    proof (cases "b < 10")
      case True
      with a "1.prems" show ?thesis
        by (simp add: str_of_nat.simps [of a] str_of_nat.simps [of b] digit_inj)
    next
      case False
      with a "1.prems" str_of_nat_nonempty [of "b div 10"] show ?thesis
        by (simp add: str_of_nat.simps [of a] str_of_nat.simps [of b])
    qed
  next
    case a: False
    show ?thesis
    proof (cases "b < 10")
      case True
      with a "1.prems" str_of_nat_nonempty [of "a div 10"] show ?thesis
        by (simp add: str_of_nat.simps [of a] str_of_nat.simps [of b])
    next
      case False
      with a "1.prems" have "str_of_nat (a div 10) = str_of_nat (b div 10)"
        and "digit (a mod 10) = digit (b mod 10)"
        by (simp_all add: str_of_nat.simps [of a] str_of_nat.simps [of b])
      then have "a div 10 = b div 10" and "a mod 10 = b mod 10"
        using "1.IH" [OF a] by (simp_all add: digit_inj)
      then show ?thesis by (metis div_mult_mod_eq)
    qed
  qed
qed

lemma split_at_first:
  "x \<notin> set xs \<Longrightarrow> x \<notin> set xs' \<Longrightarrow> xs @ x # ys = xs' @ x # ys' \<Longrightarrow> xs = xs' \<and> ys = ys'"
proof (induction xs arbitrary: xs')
  case Nil
  then show ?case by (cases xs') auto
next
  case (Cons a xs)
  then show ?case by (cases xs') auto
qed

lemma tail_format_inj:
  assumes "p @ tail_format i = q @ tail_format j"
  shows "p = q \<and> i = j"
proof -
  let ?a = "rev (str_of_nat i)" and ?b = "rev (str_of_nat j)"
  from assms have "rev (p @ tail_format i) = rev (q @ tail_format j)" by simp
  then have eq: "?a @ CHR ''('' # rev p = ?b @ CHR ''('' # rev q"
    by (simp add: tail_format_def)
  have "CHR ''('' \<notin> set ?a" and "CHR ''('' \<notin> set ?b"
    by (simp_all add: str_of_nat_no_paren)
  then have "?a = ?b \<and> rev p = rev q"
    using eq by (rule split_at_first)
  then show ?thesis by (simp add: str_of_nat_inj)
qed

lemma tail_format_nonempty: "tail_format k \<noteq> []"
  by (simp add: tail_format_def)

section \<open>The counter\<close>

lemma map_of_counter_add:
  "map_of (counter_add x c) =
     (map_of c)(x \<mapsto> (case map_of c x of None \<Rightarrow> 1 | Some m \<Rightarrow> m + 1))"
  by (induction c) (auto simp: fun_eq_iff)

lemma keys_counter_add: "fst ` set (counter_add x c) = insert x (fst ` set c)"
  by (simp add: map_of_counter_add flip: dom_map_of_conv_image_fst)

lemma distinct_counter_add:
  "distinct (map fst c) \<Longrightarrow> distinct (map fst (counter_add x c))"
  by (induction c) (auto simp: keys_counter_add)

lemma distinct_foldl_counter:
  "distinct (map fst c) \<Longrightarrow> distinct (map fst (foldl (\<lambda>c x. counter_add x c) c xs))"
  by (induction xs arbitrary: c) (simp_all add: distinct_counter_add)

lemma map_of_foldl_counter:
  "map_of (foldl (\<lambda>c x. counter_add x c) c xs) k =
     (if count_list xs k = 0 then map_of c k
      else Some (count_list xs k + (case map_of c k of None \<Rightarrow> 0 | Some m \<Rightarrow> m)))"
  by (induction xs arbitrary: c) (auto simp: map_of_counter_add split: option.splits)

lemma distinct_Counter: "distinct (map fst (Counter xs))"
  by (simp add: Counter_def distinct_foldl_counter)

lemma Counter_count:
  "(k, n) \<in> set (Counter xs) \<longleftrightarrow> n = count_list xs k \<and> 0 < n"
proof -
  have "(k, n) \<in> set (Counter xs) \<longleftrightarrow> map_of (Counter xs) k = Some n"
    using distinct_Counter [of xs] by simp
  also have "\<dots> \<longleftrightarrow> n = count_list xs k \<and> 0 < n"
    by (auto simp: Counter_def map_of_foldl_counter)
  finally show ?thesis .
qed

lemma set_duplicates: "set (duplicates xs) = {x. 1 < count_list xs x}"
  by (auto simp: duplicates_def Counter_count image_iff)

lemma distinct_duplicates: "distinct (duplicates xs)"
  unfolding duplicates_def using distinct_Counter [of xs] by (rule distinct_map_filter)

section \<open>The resolver against its specification\<close>

lemma tail_clash_free_iff:
  "tail_clash_free names \<longleftrightarrow>
     (\<forall>n\<in>set names. \<forall>d\<in>set names. \<forall>k. 1 < count_list names d \<longrightarrow> k < count_list names d
        \<longrightarrow> n \<noteq> d @ tail_format k)"
proof -
  have "(count_list names d \<le> 1 \<or> (\<forall>k\<in>set [0..<count_list names d]. n \<noteq> d @ tail_format k))
          \<longleftrightarrow> (\<forall>k. 1 < count_list names d \<longrightarrow> k < count_list names d \<longrightarrow> n \<noteq> d @ tail_format k)"
    for n d
    by (cases "count_list names d \<le> 1") auto
  then show ?thesis
    unfolding tail_clash_free_def list_all_iff by simp
qed

lemma distinct_filter_count_aux:
  "distinct (filter (\<lambda>n. count_list (pre @ xs) n \<le> 1) xs)"
proof (induction xs arbitrary: pre)
  case Nil
  show ?case by simp
next
  case (Cons x xs)
  have IH: "distinct (filter (\<lambda>n. count_list ((pre @ [x]) @ xs) n \<le> 1) xs)"
    by (rule Cons.IH)
  have "x \<notin> set xs" if "count_list (pre @ x # xs) x \<le> 1"
    using that count_list_0_iff [of xs x] by simp
  with IH show ?case by simp
qed

lemma distinct_filter_count: "distinct (filter (\<lambda>n. count_list xs n \<le> 1) xs)"
  using distinct_filter_count_aux [of "[]" xs] by simp

lemma number_occurrences_none: "number_occurrences (\<lambda>n. False) seen ts = ts"
  by (induction ts arbitrary: seen) auto

lemma append_tails_number:
  assumes "\<not> P d"
    and "\<And>p k. P p \<Longrightarrow> k < count_list seen p + count_list (map fst ts) p
           \<Longrightarrow> p @ tail_format k \<noteq> d"
  shows "append_tails d (count_list seen d) (number_occurrences P seen ts)
           = number_occurrences (\<lambda>n. P n \<or> n = d) seen ts"
  using assms(2)
proof (induction ts arbitrary: seen)
  case Nil
  show ?case by simp
next
  case (Cons a ts)
  obtain n dt where a: "a = (n, dt)" by (cases a)
  have IH: "append_tails d (count_list (n # seen) d) (number_occurrences P (n # seen) ts)
              = number_occurrences (\<lambda>n. P n \<or> n = d) (n # seen) ts"
  proof (rule Cons.IH)
    fix p k
    assume "P p" and "k < count_list (n # seen) p + count_list (map fst ts) p"
    then show "p @ tail_format k \<noteq> d"
      using Cons.prems [of p k] a by (simp split: if_splits)
  qed
  show ?case
  proof (cases "n = d")
    case True
    with IH a assms(1) show ?thesis by simp
  next
    case False
    have "n @ tail_format (count_list seen n) \<noteq> d" if "P n"
      using that Cons.prems [of n "count_list seen n"] a by simp
    with False IH a show ?thesis by auto
  qed
qed

lemma fold_append_tails_number:
  assumes "distinct ds" and "\<And>d. d \<in> set ds \<Longrightarrow> \<not> P d"
    and "\<And>p d k. P p \<or> p \<in> set ds \<Longrightarrow> d \<in> set ds \<Longrightarrow> k < count_list (map fst ts) p
           \<Longrightarrow> p @ tail_format k \<noteq> d"
  shows "fold (\<lambda>d ts. append_tails d 0 ts) ds (number_occurrences P [] ts)
           = number_occurrences (\<lambda>n. P n \<or> n \<in> set ds) [] ts"
  using assms
proof (induction ds arbitrary: P)
  case Nil
  then show ?case by simp
next
  case (Cons d ds)
  have step: "append_tails d 0 (number_occurrences P [] ts)
                = number_occurrences (\<lambda>n. P n \<or> n = d) [] ts"
    using append_tails_number [of P d "[]" ts] Cons.prems(2,3) by simp
  have "fold (\<lambda>d ts. append_tails d 0 ts) ds (number_occurrences (\<lambda>n. P n \<or> n = d) [] ts)
          = number_occurrences (\<lambda>n. (P n \<or> n = d) \<or> n \<in> set ds) [] ts"
  proof (rule Cons.IH)
    show "distinct ds" using Cons.prems(1) by simp
    show "\<not> (P e \<or> e = d)" if "e \<in> set ds" for e
      using that Cons.prems(1,2) by auto
    show "p @ tail_format k \<noteq> e"
      if "(P p \<or> p = d) \<or> p \<in> set ds" and "e \<in> set ds" and "k < count_list (map fst ts) p"
      for p e k
      using that Cons.prems(3) [of p e k] by auto
  qed
  moreover have "(\<lambda>n. (P n \<or> n = d) \<or> n \<in> set ds) = (\<lambda>n. P n \<or> n \<in> set (d # ds))"
    by auto
  ultimately show ?case using step by simp
qed

lemma mkunique_resolver:
  assumes "tail_clash_free (map fst ts)"
  shows "mkunique ts = resolver_spec ts"
proof -
  let ?ns = "map fst ts"
  let ?ds = "duplicates ?ns"
  have clash: "p @ tail_format k \<noteq> d"
    if "1 < count_list ?ns p" "1 < count_list ?ns d" "k < count_list ?ns p" for p d k
  proof -
    from that have "p \<in> set ?ns" "d \<in> set ?ns"
      using count_list_0_iff [of ?ns p] count_list_0_iff [of ?ns d] by auto
    with assms that show ?thesis
      unfolding tail_clash_free_iff by metis
  qed
  have "fold (\<lambda>d ts. append_tails d 0 ts) ?ds (number_occurrences (\<lambda>n. False) [] ts)
          = number_occurrences (\<lambda>n. False \<or> n \<in> set ?ds) [] ts"
  proof (rule fold_append_tails_number)
    show "distinct ?ds" by (rule distinct_duplicates)
    show "\<not> False" ..
    show "p @ tail_format k \<noteq> d"
      if "False \<or> p \<in> set ?ds" "d \<in> set ?ds" "k < count_list ?ns p" for p d k
      using that clash [of p d k] by (simp add: set_duplicates)
  qed
  then show ?thesis
    by (simp add: mkunique_def resolver_spec_def number_occurrences_none set_duplicates)
qed

lemma names_number_occurrences:
  assumes "x \<in> fst ` set (number_occurrences P seen ts)"
  shows "(\<not> P x \<and> x \<in> fst ` set ts)
         \<or> (\<exists>p k. P p \<and> p \<in> fst ` set ts \<and> count_list seen p \<le> k
                \<and> k < count_list seen p + count_list (map fst ts) p \<and> x = p @ tail_format k)"
  using assms
proof (induction ts arbitrary: seen)
  case Nil
  then show ?case by simp
next
  case (Cons a ts)
  obtain n dt where a: "a = (n, dt)" by (cases a)
  from Cons.prems a consider
      (hd) "x = (if P n then n @ tail_format (count_list seen n) else n)"
    | (tl) "x \<in> fst ` set (number_occurrences P (n # seen) ts)"
    by (auto split: if_splits)
  then show ?case
  proof cases
    case hd
    show ?thesis
    proof (cases "P n")
      case True
      with hd a have "P n \<and> n \<in> fst ` set (a # ts) \<and> count_list seen n \<le> count_list seen n
        \<and> count_list seen n < count_list seen n + count_list (map fst (a # ts)) n
        \<and> x = n @ tail_format (count_list seen n)" by simp
      then show ?thesis by blast
    next
      case False
      with hd a show ?thesis by simp
    qed
  next
    case tl
    from Cons.IH [OF tl] show ?thesis
    proof
      assume "\<not> P x \<and> x \<in> fst ` set ts"
      then show ?thesis by auto
    next
      assume "\<exists>p k. P p \<and> p \<in> fst ` set ts \<and> count_list (n # seen) p \<le> k
                \<and> k < count_list (n # seen) p + count_list (map fst ts) p \<and> x = p @ tail_format k"
      then obtain p k where "P p" "p \<in> fst ` set ts" "count_list (n # seen) p \<le> k"
        "k < count_list (n # seen) p + count_list (map fst ts) p" "x = p @ tail_format k"
        by blast
      then have "P p \<and> p \<in> fst ` set (a # ts) \<and> count_list seen p \<le> k
        \<and> k < count_list seen p + count_list (map fst (a # ts)) p \<and> x = p @ tail_format k"
        using a by (auto split: if_splits)
      then show ?thesis by blast
    qed
  qed
qed

lemma distinct_number_occurrences:
  assumes "distinct (filter (\<lambda>n. \<not> P n) (map fst ts))"
    and "\<And>u p k. u \<in> fst ` set ts \<Longrightarrow> p \<in> fst ` set ts \<Longrightarrow> \<not> P u \<Longrightarrow> P p
           \<Longrightarrow> k < count_list seen p + count_list (map fst ts) p \<Longrightarrow> u \<noteq> p @ tail_format k"
  shows "distinct (map fst (number_occurrences P seen ts))"
  using assms
proof (induction ts arbitrary: seen)
  case Nil
  then show ?case by simp
next
  case (Cons a ts)
  obtain n dt where a: "a = (n, dt)" by (cases a)
  let ?h = "if P n then n @ tail_format (count_list seen n) else n"
  have shift: "count_list (n # seen) p + count_list (map fst ts) p
                 = count_list seen p + count_list (map fst (a # ts)) p" for p
    using a by simp
  have tl: "distinct (map fst (number_occurrences P (n # seen) ts))"
  proof (rule Cons.IH)
    show "distinct (filter (\<lambda>n. \<not> P n) (map fst ts))"
      using Cons.prems(1) by (auto split: if_splits)
    show "u \<noteq> p @ tail_format k"
      if "u \<in> fst ` set ts" "p \<in> fst ` set ts" "\<not> P u" "P p"
        "k < count_list (n # seen) p + count_list (map fst ts) p" for u p k
      using that Cons.prems(2) [of u p k] unfolding shift by auto
  qed
  have "?h \<notin> fst ` set (number_occurrences P (n # seen) ts)"
  proof
    assume "?h \<in> fst ` set (number_occurrences P (n # seen) ts)"
    from names_number_occurrences [OF this] show False
    proof
      assume u: "\<not> P ?h \<and> ?h \<in> fst ` set ts"
      show False
      proof (cases "P n")
        case True
        with u Cons.prems(2) [of ?h n "count_list seen n"] a show False by auto
      next
        case False
        with u Cons.prems(1) a show False by auto
      qed
    next
      assume "\<exists>p k. P p \<and> p \<in> fst ` set ts \<and> count_list (n # seen) p \<le> k
          \<and> k < count_list (n # seen) p + count_list (map fst ts) p \<and> ?h = p @ tail_format k"
      then obtain p k where p: "P p" "p \<in> fst ` set ts" "count_list (n # seen) p \<le> k"
        "k < count_list (n # seen) p + count_list (map fst ts) p"
        "?h = p @ tail_format k" by blast
      show False
      proof (cases "P n")
        case True
        with p(5) have "n @ tail_format (count_list seen n) = p @ tail_format k" by simp
        then have "n = p" and "count_list seen n = k"
          using tail_format_inj by blast+
        with p(3) show False by simp
      next
        case False
        with p Cons.prems(2) [of n p k] a show False unfolding shift by auto
      qed
    qed
  qed
  with tl a show ?case by (cases "P n") simp_all
qed

lemma distinct_resolver_spec:
  assumes "tail_clash_free (map fst ts)"
  shows "distinct (map fst (resolver_spec ts))"
  unfolding resolver_spec_def
proof (rule distinct_number_occurrences)
  let ?ns = "map fst ts"
  show "distinct (filter (\<lambda>n. \<not> 1 < count_list ?ns n) ?ns)"
    using distinct_filter_count [of ?ns] by (simp add: not_less)
  show "u \<noteq> p @ tail_format k"
    if "u \<in> fst ` set ts" "p \<in> fst ` set ts" "\<not> 1 < count_list ?ns u" "1 < count_list ?ns p"
      "k < count_list [] p + count_list ?ns p" for u p k
  proof -
    from that have "u \<in> set ?ns" "p \<in> set ?ns" "k < count_list ?ns p" by simp_all
    with assms that(4) show ?thesis unfolding tail_clash_free_iff by blast
  qed
qed

section \<open>What the resolver leaves alone\<close>

lemma length_append_tails: "length (append_tails d k ts) = length ts"
  by (induction ts arbitrary: k) auto

lemma append_tails_other:
  "i < length ts \<Longrightarrow> fst (ts ! i) \<noteq> d \<Longrightarrow> append_tails d k ts ! i = ts ! i"
proof (induction ts arbitrary: i k)
  case Nil
  then show ?case by simp
next
  case (Cons a ts)
  obtain n dt where a: "a = (n, dt)" by (cases a)
  show ?case
  proof (cases i)
    case 0
    with Cons.prems a show ?thesis by simp
  next
    case (Suc j)
    with Cons.prems Cons.IH [of j] a show ?thesis by simp
  qed
qed

lemma append_tails_rel:
  "list_all2 (\<lambda>a b. snd b = snd a \<and> prefix (fst a) (fst b)) ts (append_tails d k ts)"
  by (induction ts arbitrary: k) auto

lemma fold_append_tails_rel:
  "list_all2 (\<lambda>a b. snd b = snd a \<and> prefix (fst a) (fst b)) ts
     (fold (\<lambda>d ts. append_tails d 0 ts) ds ts)"
proof (induction ds arbitrary: ts)
  case Nil
  show ?case by (simp add: list_all2_same)
next
  case (Cons d ds)
  let ?R = "\<lambda>a b :: string \<times> 'a. snd b = snd a \<and> prefix (fst a) (fst b)"
  have tr: "?R a c" if "?R a b" "?R b c" for a b c
    using that by (auto intro: prefix_order.trans)
  have one: "list_all2 ?R ts (append_tails d 0 ts)"
    by (rule append_tails_rel)
  have rest: "list_all2 ?R (append_tails d 0 ts)
     (fold (\<lambda>d ts. append_tails d 0 ts) ds (append_tails d 0 ts))"
    by (rule Cons.IH)
  have "list_all2 ?R ts (fold (\<lambda>d ts. append_tails d 0 ts) ds (append_tails d 0 ts))"
    using tr one rest by (rule list_all2_trans)
  then show ?case by simp
qed

lemma fold_append_tails_other:
  "i < length ts \<Longrightarrow> fst (ts ! i) \<notin> set ds
     \<Longrightarrow> fold (\<lambda>d ts. append_tails d 0 ts) ds ts ! i = ts ! i"
proof (induction ds arbitrary: ts)
  case Nil
  show ?case by simp
next
  case (Cons d ds)
  from Cons.prems have "append_tails d 0 ts ! i = ts ! i"
    by (simp add: append_tails_other)
  with Cons.prems Cons.IH [of "append_tails d 0 ts"] show ?case
    by (simp add: length_append_tails)
qed

lemma mkunique_rel:
  "list_all2 (\<lambda>a b. snd b = snd a \<and> prefix (fst a) (fst b)) ts (mkunique ts)"
  unfolding mkunique_def by (rule fold_append_tails_rel)

text \<open>
  Claim C9. For every list of pairs, \<^verbatim>\<open>mkunique\<close> returns a list of the same length
  with the same dtype at every position, and a pair whose name occurs once in the
  list is returned as it was.
\<close>

theorem mkunique_frame:
  "length (mkunique ts) = length ts
   \<and> map snd (mkunique ts) = map snd ts
   \<and> (\<forall>i<length ts. snd (mkunique ts ! i) = snd (ts ! i)
         \<and> (count_list (map fst ts) (fst (ts ! i)) \<le> 1 \<longrightarrow> mkunique ts ! i = ts ! i))"
proof -
  note rel = mkunique_rel [of ts]
  have len: "length (mkunique ts) = length ts"
    using rel by (simp add: list_all2_lengthD)
  have nth: "snd (mkunique ts ! i) = snd (ts ! i)" if "i < length ts" for i
    using rel that by (simp add: list_all2_conv_all_nth)
  have "map snd (mkunique ts) = map snd ts"
    using len nth by (simp add: list_eq_iff_nth_eq)
  moreover have "mkunique ts ! i = ts ! i"
    if "i < length ts" "count_list (map fst ts) (fst (ts ! i)) \<le> 1" for i
    using that unfolding mkunique_def
    by (intro fold_append_tails_other) (simp_all add: set_duplicates)
  ultimately show ?thesis using len nth by blast
qed

theorem mkunique_frame_witness:
  "length (mkunique [(''TIME'', Scalar ''i2''), (''DEPT'', Scalar ''f4''), (''TIME'', Scalar ''i4'')]) = 3
   \<and> map snd (mkunique [(''TIME'', Scalar ''i2''), (''DEPT'', Scalar ''f4''), (''TIME'', Scalar ''i4'')])
       = [Scalar ''i2'', Scalar ''f4'', Scalar ''i4'']
   \<and> mkunique [(''TIME'', Scalar ''i2''), (''DEPT'', Scalar ''f4''), (''TIME'', Scalar ''i4'')] ! 1
       = (''DEPT'', Scalar ''f4'')"
proof -
  let ?ts = "[(''TIME'', Scalar ''i2''), (''DEPT'', Scalar ''f4''), (''TIME'', Scalar ''i4'')]"
  note fr = mkunique_frame [of ?ts]
  from fr have "\<forall>i<length ?ts. snd (mkunique ?ts ! i) = snd (?ts ! i)
         \<and> (count_list (map fst ?ts) (fst (?ts ! i)) \<le> 1 \<longrightarrow> mkunique ?ts ! i = ?ts ! i)"
    by blast
  then have "count_list (map fst ?ts) (fst (?ts ! 1)) \<le> 1 \<longrightarrow> mkunique ?ts ! 1 = ?ts ! 1"
    by simp
  then have "mkunique ?ts ! 1 = (''DEPT'', Scalar ''f4'')" by simp
  with fr show ?thesis by simp
qed

text \<open>
  Claim C5, at the list \<^verbatim>\<open>[A, A, A(0), A(0)]\<close>. The claim numbers the occurrences of each
  duplicated name from zero, each name on its own, which is \<^const>\<open>resolver_spec\<close>. The
  pass of \<^verbatim>\<open>mkunique\<close> for \<^verbatim>\<open>A\<close> writes \<^verbatim>\<open>A(0)\<close>, which the pass for \<^verbatim>\<open>A(0)\<close> then takes
  for an occurrence of its own label: the first \<^verbatim>\<open>A\<close> ends with two tails and the
  two \<^verbatim>\<open>A(0)\<close> are numbered 1 and 2.
\<close>

theorem mkunique_numbering_clash:
  "mkunique [(''A'', Scalar ''i2''), (''A'', Scalar ''i4''), (''A(0)'', Scalar ''f4''), (''A(0)'', Scalar ''u1'')]
     = [(''A(0)(0)'', Scalar ''i2''), (''A(1)'', Scalar ''i4''),
        (''A(0)(1)'', Scalar ''f4''), (''A(0)(2)'', Scalar ''u1'')]
   \<and> resolver_spec [(''A'', Scalar ''i2''), (''A'', Scalar ''i4''), (''A(0)'', Scalar ''f4''), (''A(0)'', Scalar ''u1'')]
     = [(''A(0)'', Scalar ''i2''), (''A(1)'', Scalar ''i4''),
        (''A(0)(0)'', Scalar ''f4''), (''A(0)(1)'', Scalar ''u1'')]"
  by code_simp

section \<open>Properties of the builder\<close>

lemma types_of_Inr:
  "types_of sz chs = Inr ts \<Longrightarrow>
     list_all2 (\<lambda>ch fld. fst fld = mnemonic ch \<and> spec_dtype sz ch = Inr (snd fld))
       [ch \<leftarrow> chs. reserved_size ch > 0 \<and> samples ch = 1] ts"
  by (induction chs arbitrary: ts) (auto split: if_splits sum.splits)

lemma types_of_names:
  assumes "types_of sz chs = Inr ts"
  shows "map fst ts = map mnemonic [ch \<leftarrow> chs. reserved_size ch > 0 \<and> samples ch = 1]"
proof -
  from types_of_Inr [OF assms] show ?thesis
    by (auto simp: list_all2_conv_all_nth list_eq_iff_nth_eq)
qed

lemma types_of_total:
  "\<forall>ch\<in>set [ch \<leftarrow> chs. reserved_size ch > 0 \<and> samples ch = 1]. \<exists>dt. spec_dtype sz ch = Inr dt
     \<Longrightarrow> \<exists>ts. types_of sz chs = Inr ts"
  by (induction chs) (auto split: sum.splits)

lemma types_of_nothing_kept:
  "[ch \<leftarrow> chs. reserved_size ch > 0 \<and> samples ch = 1] = [] \<Longrightarrow> types_of sz chs = Inr []"
  by (induction chs) (auto split: if_splits)

lemma np_field_names_id: "[] \<notin> set ns \<Longrightarrow> np_field_names i ns = ns"
  by (induction ns arbitrary: i) auto

lemma length_np_field_names: "length (np_field_names i ns) = length ns"
  by (induction ns arbitrary: i) auto

lemma np_field_names_prefix: "list_all2 prefix ns (np_field_names i ns)"
  by (induction ns arbitrary: i) auto

lemma np_dtype_Inr:
  assumes "np_dtype ts = Inr l"
  shows "distinct (map fst l)"
    and "list_all2 (\<lambda>a b. snd b = snd a \<and> prefix (fst a) (fst b)) ts l"
proof -
  let ?ns = "np_field_names 0 (map fst ts)"
  from assms have d: "distinct ?ns" and l: "l = zip ?ns (map snd ts)"
    by (auto simp: np_dtype_def Let_def split: if_splits)
  have len: "length ?ns = length ts" by (simp add: length_np_field_names)
  from d l len show "distinct (map fst l)" by simp
  have "prefix (map fst ts ! i) (?ns ! i)" if "i < length ts" for i
    using np_field_names_prefix [of "map fst ts" 0] that
    by (simp add: list_all2_conv_all_nth)
  with l len show "list_all2 (\<lambda>a b. snd b = snd a \<and> prefix (fst a) (fst b)) ts l"
    by (simp add: list_all2_conv_all_nth)
qed

lemma np_dtype_named:
  "[] \<notin> fst ` set ts \<Longrightarrow>
     np_dtype ts = (if distinct (map fst ts) then Inr ts else Inl DuplicateFieldName)"
  by (simp add: np_dtype_def np_field_names_id zip_map_fst_snd)

lemma np_dtype_error: "np_dtype ts = Inl e \<Longrightarrow> e = DuplicateFieldName"
  by (auto simp: np_dtype_def Let_def split: if_splits)

lemma mkunique_named:
  assumes "[] \<notin> fst ` set ts"
  shows "[] \<notin> fst ` set (mkunique ts)"
proof
  assume "[] \<in> fst ` set (mkunique ts)"
  then obtain i where i: "i < length (mkunique ts)" "fst (mkunique ts ! i) = []"
    by (auto simp: in_set_conv_nth)
  with mkunique_rel [of ts] have "i < length ts" "prefix (fst (ts ! i)) []"
    by (auto simp: list_all2_conv_all_nth)
  with assms show False by (auto simp: in_set_conv_nth image_iff) (metis fst_conv nth_mem prod.collapse)
qed

lemma dfsr_dtype_Inr:
  assumes "dfsr_dtype sz dfsr strict = Inr layout"
  shows "distinct (map fst layout)"
    and "list_all2 (\<lambda>ch fld. spec_dtype sz ch = Inr (snd fld) \<and> prefix (mnemonic ch) (fst fld))
           (kept_specs dfsr) layout"
proof -
  from assms obtain ts where ts: "types_of sz (specs dfsr) = Inr ts"
    by (auto simp: dfsr_dtype_def split: sum.splits)
  let ?R = "\<lambda>a b :: string \<times> dtype. snd b = snd a \<and> prefix (fst a) (fst b)"
  from assms ts consider "np_dtype ts = Inr layout" | "np_dtype (mkunique ts) = Inr layout"
    by (auto simp: dfsr_dtype_def split: sum.splits if_splits)
  then have "distinct (map fst layout) \<and> list_all2 ?R ts layout"
  proof cases
    case 1
    then show ?thesis using np_dtype_Inr by blast
  next
    case 2
    have tr: "?R a c" if "?R a b" "?R b c" for a b c
      using that by (auto intro: prefix_order.trans)
    have "list_all2 ?R ts layout"
      using tr mkunique_rel [of ts] np_dtype_Inr(2) [OF 2] by (rule list_all2_trans)
    with np_dtype_Inr(1) [OF 2] show ?thesis by simp
  qed
  then have d: "distinct (map fst layout)" and r: "list_all2 ?R ts layout" by simp_all
  show "distinct (map fst layout)" by (rule d)
  have "list_all2 (\<lambda>ch fld. fst fld = mnemonic ch \<and> spec_dtype sz ch = Inr (snd fld))
          (kept_specs dfsr) ts"
    using types_of_Inr [OF ts] by (simp add: kept_specs_def)
  then show "list_all2 (\<lambda>ch fld. spec_dtype sz ch = Inr (snd fld) \<and> prefix (mnemonic ch) (fst fld))
           (kept_specs dfsr) layout"
    using r by (auto simp: list_all2_conv_all_nth)
qed


text \<open>
  Claim C1, amended. The channels that \<^verbatim>\<open>dfsr_dtype\<close> keeps all have a mnemonic that
  is not empty and a dtype (\<^verbatim>\<open>spec_dtype\<close> does not raise on them), and two of them
  share a mnemonic. Then \<^verbatim>\<open>dfsr_dtype\<close> with \<^verbatim>\<open>strict=True\<close> raises the \<^verbatim>\<open>ValueError\<close>
  of the duplicated field name. With \<^verbatim>\<open>strict=False\<close>, when no kept mnemonic is a name
  that \<^verbatim>\<open>mkunique\<close> writes, it returns a layout whose names are pairwise distinct and
  whose fields are, in order, the kept channels: each with the dtype of its channel
  and a name that starts with the mnemonic.
\<close>

theorem dfsr_dtype_duplicated_mnemonic:
  assumes ok: "\<forall>ch\<in>set (kept_specs dfsr). mnemonic ch \<noteq> [] \<and> (\<exists>dt. spec_dtype sz ch = Inr dt)"
    and dup: "\<not> distinct (map mnemonic (kept_specs dfsr))"
  shows "dfsr_dtype sz dfsr True = Inl DuplicateFieldName
         \<and> (tail_clash_free (map mnemonic (kept_specs dfsr)) \<longrightarrow>
              (\<exists>layout. dfsr_dtype sz dfsr False = Inr layout
                 \<and> distinct (map fst layout)
                 \<and> list_all2 (\<lambda>ch fld. spec_dtype sz ch = Inr (snd fld)
                                \<and> prefix (mnemonic ch) (fst fld)) (kept_specs dfsr) layout))"
proof -
  from ok obtain ts where ts: "types_of sz (specs dfsr) = Inr ts"
    using types_of_total [of "specs dfsr" sz] by (auto simp: kept_specs_def)
  have names: "map fst ts = map mnemonic (kept_specs dfsr)"
    using types_of_names [OF ts] by (simp add: kept_specs_def)
  have named: "[] \<notin> fst ` set ts"
  proof -
    have "[] \<notin> set (map fst ts)" unfolding names using ok by auto
    then show ?thesis by simp
  qed
  have first: "np_dtype ts = Inl DuplicateFieldName"
    using named dup names by (simp add: np_dtype_named)
  have strict: "dfsr_dtype sz dfsr True = Inl DuplicateFieldName"
    using ts first by (simp add: dfsr_dtype_def)
  have lenient: "\<exists>layout. dfsr_dtype sz dfsr False = Inr layout
                 \<and> distinct (map fst layout)
                 \<and> list_all2 (\<lambda>ch fld. spec_dtype sz ch = Inr (snd fld)
                                \<and> prefix (mnemonic ch) (fst fld)) (kept_specs dfsr) layout"
    if free: "tail_clash_free (map mnemonic (kept_specs dfsr))"
  proof -
    from free have free': "tail_clash_free (map fst ts)" by (simp add: names)
    have "distinct (map fst (mkunique ts))"
      using mkunique_resolver [OF free'] distinct_resolver_spec [OF free'] by simp
    then have "np_dtype (mkunique ts) = Inr (mkunique ts)"
      using mkunique_named [OF named] by (simp add: np_dtype_named)
    then have r: "dfsr_dtype sz dfsr False = Inr (mkunique ts)"
      using ts first by (simp add: dfsr_dtype_def)
    from dfsr_dtype_Inr [OF r] r show ?thesis by blast
  qed
  from strict lenient show ?thesis by blast
qed

theorem dfsr_dtype_duplicated_mnemonic_witness:
  "\<not> distinct (map mnemonic (kept_specs (dfsr_of [] [ch_TIME_i16, ch_DEPT, ch_FAST, ch_TIME_i32])))
   \<and> dfsr_dtype byte_width_of (dfsr_of [] [ch_TIME_i16, ch_DEPT, ch_FAST, ch_TIME_i32]) True
       = Inl DuplicateFieldName
   \<and> (\<exists>layout. dfsr_dtype byte_width_of (dfsr_of [] [ch_TIME_i16, ch_DEPT, ch_FAST, ch_TIME_i32]) False
         = Inr layout \<and> distinct (map fst layout))"
proof -
  let ?d = "dfsr_of [] [ch_TIME_i16, ch_DEPT, ch_FAST, ch_TIME_i32]"
  have k: "kept_specs ?d = [ch_TIME_i16, ch_DEPT, ch_TIME_i32]"
    by (simp add: kept_specs_def dfsr_of_def ch_defs)
  have h1: "\<forall>ch\<in>set (kept_specs ?d). mnemonic ch \<noteq> [] \<and> (\<exists>dt. spec_dtype byte_width_of ch = Inr dt)"
    unfolding k
    by (simp add: ch_defs spec_dtype_def nptype_getitem_def nptype_def np_dtype_sub_def py_int_def)
  have h2: "\<not> distinct (map mnemonic (kept_specs ?d))"
    unfolding k by (simp add: ch_defs)
  have h3: "tail_clash_free (map mnemonic (kept_specs ?d))"
    unfolding k by (simp add: ch_defs tail_clash_free_def tail_format_def)
  from dfsr_dtype_duplicated_mnemonic [OF h1 h2] h2 h3 show ?thesis by blast
qed

theorem dfsr_dtype_duplicated_mnemonic_counterexample:
  "\<not> distinct (map mnemonic (kept_specs (dfsr_of [] [ch_TIME_odd, ch_TIME_i32])))
   \<and> dfsr_dtype byte_width_of (dfsr_of [] [ch_TIME_odd, ch_TIME_i32]) True = Inl InvalidLayout
   \<and> dfsr_dtype byte_width_of (dfsr_of [] [ch_TIME_odd, ch_TIME_i32]) False = Inl InvalidLayout
   \<and> \<not> distinct (map mnemonic (kept_specs (dfsr_of [] [ch_A, ch_A, ch_A0])))
   \<and> dfsr_dtype byte_width_of (dfsr_of [] [ch_A, ch_A, ch_A0]) False = Inl DuplicateFieldName
   \<and> \<not> distinct (map mnemonic (kept_specs (dfsr_of [] [ch_blank, ch_blank])))
   \<and> dfsr_dtype byte_width_of (dfsr_of [] [ch_blank, ch_blank]) True
       = Inr [(''f0'', Scalar ''f4''), (''f1'', Scalar ''f4'')]"
  by code_simp

section \<open>Properties of the orchestrator\<close>




text \<open>
  Claim C8. Whatever \<^verbatim>\<open>curves\<close> returns and whatever calls it makes: when the depth
  mode guard or the fast channel guard fires, or \<^verbatim>\<open>dfsr_dtype\<close> raises, the result is
  an exception and the decode engine is not among the calls; a result that is one of
  the five validation errors comes with no call of the decode engine; and a call of
  the decode engine is the last of two calls, made with the format string and with a
  layout that \<^verbatim>\<open>dfsr_dtype\<close> returned, of pairwise distinct names.
\<close>

theorem curves_validates_before_reading:
  assumes "curves core f dfsr strict skip_fast = (res, calls)"
  shows "(((\<exists>x\<in>set (entries dfsr). entry_type x = 13 \<and> equals_one (entry_value x))
           \<or> ((\<exists>ch\<in>set (specs dfsr). samples ch > 1) \<and> \<not> skip_fast)
           \<or> (\<exists>e. dfsr_dtype (lis_sizeof_type core) dfsr strict = Inl e))
          \<longrightarrow> (\<exists>e. res = Inl e) \<and> \<not> list_ex is_read_call calls)
         \<and> (res \<in> {Inl UnsupportedDepthMode, Inl FastChannelsPresent, Inl UnsupportedCode,
                    Inl InvalidLayout, Inl DuplicateFieldName}
              \<longrightarrow> \<not> list_ex is_read_call calls)
         \<and> (list_ex is_read_call calls \<longrightarrow>
              (\<exists>fmt layout. dfs_formatstring core dfsr = Inr fmt
                 \<and> dfsr_dtype (lis_sizeof_type core) dfsr strict = Inr layout
                 \<and> distinct (map fst layout)
                 \<and> calls = [Dfs_formatstring dfsr,
                      Read_data_records fmt (io f) (index f) (info dfsr) (itemsize layout) layout]))"
proof -
  have a: "(\<exists>e. res = Inl e) \<and> \<not> list_ex is_read_call calls"
    if "(\<exists>x\<in>set (entries dfsr). entry_type x = 13 \<and> equals_one (entry_value x))
           \<or> ((\<exists>ch\<in>set (specs dfsr). samples ch > 1) \<and> \<not> skip_fast)
           \<or> (\<exists>e. dfsr_dtype (lis_sizeof_type core) dfsr strict = Inl e)"
    using that assms
    by (auto simp: curves_def list_ex_iff split: if_splits sum.splits)
  have c: "\<exists>fmt layout. dfs_formatstring core dfsr = Inr fmt
                 \<and> dfsr_dtype (lis_sizeof_type core) dfsr strict = Inr layout
                 \<and> distinct (map fst layout)
                 \<and> calls = [Dfs_formatstring dfsr,
                      Read_data_records fmt (io f) (index f) (info dfsr) (itemsize layout) layout]"
    if "list_ex is_read_call calls"
  proof -
    from that assms obtain fmt layout where
      "dfs_formatstring core dfsr = Inr fmt"
      "dfsr_dtype (lis_sizeof_type core) dfsr strict = Inr layout"
      "calls = [Dfs_formatstring dfsr,
                      Read_data_records fmt (io f) (index f) (info dfsr) (itemsize layout) layout]"
      by (auto simp: curves_def split: if_splits sum.splits)
    with dfsr_dtype_Inr(1) [of "lis_sizeof_type core" dfsr strict layout] show ?thesis by blast
  qed
  have b: "\<not> list_ex is_read_call calls"
    if "res \<in> {Inl UnsupportedDepthMode, Inl FastChannelsPresent, Inl UnsupportedCode,
                    Inl InvalidLayout, Inl DuplicateFieldName}"
    using that assms
    by (auto simp: curves_def split: if_splits sum.splits)
  from a b c show ?thesis by blast
qed

theorem curves_validates_before_reading_witness:
  "curves core0 file0 (dfsr_of [] [ch_DEPT, ch_TIME_odd]) True False
     = (Inl InvalidLayout, [Dfs_formatstring (dfsr_of [] [ch_DEPT, ch_TIME_odd])])
   \<and> \<not> list_ex is_read_call [Dfs_formatstring (dfsr_of [] [ch_DEPT, ch_TIME_odd])]"
proof -
  let ?d = "dfsr_of [] [ch_DEPT, ch_TIME_odd]"
  have c: "curves core0 file0 ?d True False = (Inl InvalidLayout, [Dfs_formatstring ?d])"
    by code_simp
  from curves_validates_before_reading [OF c] c show ?thesis by simp
qed

text \<open>
  Claim C10, amended. A DFSR none of whose channels has \<^verbatim>\<open>reserved_size > 0\<close> and
  \<^verbatim>\<open>samples == 1\<close>: \<^verbatim>\<open>dfsr_dtype\<close> returns the layout without fields, of item size 0.
  With \<^verbatim>\<open>skip_fast=True\<close>, when no entry block has type 13 and value 1 and the format
  string is built, \<^verbatim>\<open>curves\<close> calls the decode engine with width 0 and that layout,
  and returns what the engine returns.
\<close>

theorem curves_nothing_kept:
  assumes "\<forall>ch\<in>set (specs dfsr). reserved_size ch \<le> 0 \<or> samples ch \<noteq> 1"
  shows "dfsr_dtype sz dfsr strict = Inr []
         \<and> itemsize [] = 0
         \<and> (\<forall>fmt. \<not> (\<exists>x\<in>set (entries dfsr). entry_type x = 13 \<and> equals_one (entry_value x))
               \<and> dfs_formatstring core dfsr = Inr fmt \<longrightarrow>
               curves core f dfsr strict True =
                 ((case read_data_records core fmt (io f) (index f) (info dfsr) 0 [] of
                     Inl msg \<Rightarrow> Inl (CoreError msg)
                   | Inr records \<Rightarrow> Inr records),
                  [Dfs_formatstring dfsr,
                   Read_data_records fmt (io f) (index f) (info dfsr) 0 []]))"
proof -
  have "[ch \<leftarrow> specs dfsr. reserved_size ch > 0 \<and> samples ch = 1] = []"
    using assms by (auto simp: filter_empty_conv)
  then have t: "types_of sz (specs dfsr) = Inr []" for sz
    by (rule types_of_nothing_kept)
  have d: "dfsr_dtype sz dfsr strict = Inr []" for sz
    by (simp add: dfsr_dtype_def t np_dtype_def)
  have i: "itemsize [] = 0" by (simp add: itemsize_def)
  have "curves core f dfsr strict True =
                 ((case read_data_records core fmt (io f) (index f) (info dfsr) 0 [] of
                     Inl msg \<Rightarrow> Inl (CoreError msg)
                   | Inr records \<Rightarrow> Inr records),
                  [Dfs_formatstring dfsr,
                   Read_data_records fmt (io f) (index f) (info dfsr) 0 []])"
    if "\<not> (\<exists>x\<in>set (entries dfsr). entry_type x = 13 \<and> equals_one (entry_value x))"
      "dfs_formatstring core dfsr = Inr fmt" for fmt
    using that by (simp add: curves_def list_ex_iff d i)
  with d i show ?thesis by blast
qed

theorem curves_nothing_kept_witness:
  "dfsr_dtype byte_width_of (dfsr_of [] [ch_FAST, ch_VOID]) True = Inr []
   \<and> curves core0 file0 (dfsr_of [] [ch_FAST, ch_VOID]) True True
     = (Inr 0, [Dfs_formatstring (dfsr_of [] [ch_FAST, ch_VOID]),
                Read_data_records ''fmt'' () () () 0 []])"
proof -
  let ?d = "dfsr_of [] [ch_FAST, ch_VOID]"
  have h: "\<forall>ch\<in>set (specs ?d). reserved_size ch \<le> 0 \<or> samples ch \<noteq> 1"
    by (simp add: dfsr_of_def ch_defs)
  have n: "\<not> (\<exists>x\<in>set (entries ?d). entry_type x = 13 \<and> equals_one (entry_value x))"
    by (simp add: dfsr_of_def)
  have f: "dfs_formatstring core0 ?d = Inr ''fmt''" by (simp add: core0_def)
  have r: "read_data_records core0 ''fmt'' () () () 0 [] = Inr 0"
    by (simp add: core0_def)
  have u: "io file0 = ()" "index file0 = ()" "info ?d = ()" by simp_all
  from curves_nothing_kept [OF h, of byte_width_of True core0 file0] n f
  have "dfsr_dtype byte_width_of ?d True = Inr []"
    and "curves core0 file0 ?d True True =
      ((case read_data_records core0 ''fmt'' (io file0) (index file0) (info ?d) 0 [] of
          Inl msg \<Rightarrow> Inl (CoreError msg) | Inr records \<Rightarrow> Inr records),
        [Dfs_formatstring ?d, Read_data_records ''fmt'' (io file0) (index file0) (info ?d) 0 []])"
    by blast+
  then show ?thesis by (simp add: u r)
qed

theorem curves_nothing_kept_counterexample:
  "kept_specs (dfsr_of [depth_mode_1] [ch_FAST, ch_VOID]) = []
   \<and> curves core0 file0 (dfsr_of [depth_mode_1] [ch_FAST, ch_VOID]) True True
       = (Inl UnsupportedDepthMode, [])"
  by code_simp

end
